theory Spec2Isabelle
  imports Main
begin

section \<open>Data model (types.ts)\<close>

text \<open>
  A JavaScript object with string keys is modelled by the list of its own properties in
  the order \<^verbatim>\<open>Object.entries\<close> enumerates them. An object has every key once;
  \<open>wf_object\<close> says so. Reading a property \<^verbatim>\<open>obj[k]\<close> is \<open>map_of\<close>.
\<close>

type_synonym 'v js_object = "(string \<times> 'v) list"

definition wf_object :: "'v js_object \<Rightarrow> bool" where
  "wf_object obj = distinct (map fst obj)"

datatype PoolType = Pending | Queued

record MempoolTransaction =
  tx_hash :: string
  tx_nonce :: string
  tx_from :: string
  tx_to :: string
  tx_value :: string
  tx_gas :: string
  tx_gasPrice :: string
  tx_data :: string
  tx_v :: "string option"
  tx_r :: "string option"
  tx_s :: "string option"
  tx_type :: "string option"
  tx_accessList :: "string list option"
  tx_maxFeePerGas :: "string option"
  tx_maxPriorityFeePerGas :: "string option"

type_synonym AddressData = "MempoolTransaction js_object"

type_synonym MempoolContent = "AddressData js_object"

text \<open>
  The two sub-pools of \<^verbatim>\<open>MempoolResult\<close>. The code guards every read with
  \<^verbatim>\<open>|| {}\<close> or a truthiness test, so a key that is missing at run time is a value
  of the model: \<open>None\<close>.
\<close>

record MempoolResult =
  pending :: "MempoolContent option"
  queued :: "MempoolContent option"

definition wf_content :: "MempoolContent \<Rightarrow> bool" where
  "wf_content c = (wf_object c \<and> list_all (\<lambda>(address, addressData). wf_object addressData) c)"

definition wf_result :: "MempoolResult \<Rightarrow> bool" where
  "wf_result d =
     ((case pending d of None \<Rightarrow> True | Some c \<Rightarrow> wf_content c) \<and>
      (case queued d of None \<Rightarrow> True | Some c \<Rightarrow> wf_content c))"

text \<open>\<^verbatim>\<open>pool || {}\<close>\<close>

definition or_empty :: "MempoolContent option \<Rightarrow> MempoolContent" where
  "or_empty pool = (case pool of None \<Rightarrow> [] | Some c \<Rightarrow> c)"

section \<open>The comparator (mempool-compare.ts)\<close>

record TransactionInfo =
  info_hash :: string
  info_from :: string
  info_to :: string
  info_value :: string
  info_gasPrice :: string
  info_nonce :: string
  info_poolType :: PoolType
  info_address :: string

text \<open>The object literal pushed by both loops of \<^verbatim>\<open>extractAllTransactions\<close>.\<close>

definition mk_info :: "PoolType \<Rightarrow> string \<Rightarrow> string \<Rightarrow> MempoolTransaction \<Rightarrow> TransactionInfo" where
  "mk_info p address nonce tx =
     \<lparr> info_hash = tx_hash tx, info_from = tx_from tx, info_to = tx_to tx,
       info_value = tx_value tx, info_gasPrice = tx_gasPrice tx, info_nonce = nonce,
       info_poolType = p, info_address = address \<rparr>"

text \<open>The inner loop, over the entries of one address; \<open>transactions\<close> is the array pushed to.\<close>

fun extract_nonces ::
  "PoolType \<Rightarrow> string \<Rightarrow> AddressData \<Rightarrow> TransactionInfo list \<Rightarrow> TransactionInfo list" where
  "extract_nonces p address [] transactions = transactions"
| "extract_nonces p address ((nonce, tx) # rest) transactions =
     extract_nonces p address rest (transactions @ [mk_info p address nonce tx])"

text \<open>The outer loop, over the addresses of one sub-pool.\<close>

fun extract_pool ::
  "PoolType \<Rightarrow> MempoolContent \<Rightarrow> TransactionInfo list \<Rightarrow> TransactionInfo list" where
  "extract_pool p [] transactions = transactions"
| "extract_pool p ((address, addressData) # rest) transactions =
     extract_pool p rest (extract_nonces p address addressData transactions)"

definition extractAllTransactions :: "MempoolResult \<Rightarrow> TransactionInfo list" where
  "extractAllTransactions mempoolData =
     extract_pool Queued (or_empty (queued mempoolData))
       (extract_pool Pending (or_empty (pending mempoolData)) [])"

text \<open>
  \<^verbatim>\<open>new Map(pairs)\<close> sets the pairs in order, so a later pair with the same key
  replaces the earlier value. \<^verbatim>\<open>has\<close> and \<^verbatim>\<open>get\<close> are the lookup.
\<close>

definition new_Map :: "('k \<times> 'v) list \<Rightarrow> ('k \<rightharpoonup> 'v)" where
  "new_Map pairs = foldl (\<lambda>m (k, v). m(k \<mapsto> v)) Map.empty pairs"

definition txMap :: "TransactionInfo list \<Rightarrow> (string \<rightharpoonup> TransactionInfo)" where
  "txMap transactions = new_Map (map (\<lambda>tx. (info_hash tx, tx)) transactions)"

text \<open>
  The first loop of \<^verbatim>\<open>compareFiles\<close>. The accumulator holds the four arrays
  \<^verbatim>\<open>disappearedTransactions\<close>, \<^verbatim>\<open>stillPending\<close>, \<^verbatim>\<open>movedToQueued\<close>
  and \<^verbatim>\<open>movedToPending\<close>, in this order.
\<close>

type_synonym first_loop_acc =
  "TransactionInfo list \<times> TransactionInfo list \<times> TransactionInfo list \<times> TransactionInfo list"

fun classify_first ::
  "(string \<rightharpoonup> TransactionInfo) \<Rightarrow> TransactionInfo list \<Rightarrow> first_loop_acc \<Rightarrow> first_loop_acc" where
  "classify_first secondTxMap [] acc = acc"
| "classify_first secondTxMap (tx # rest) (dis, still, toQ, toP) =
     (case secondTxMap (info_hash tx) of
        None \<Rightarrow> classify_first secondTxMap rest (dis @ [tx], still, toQ, toP)
      | Some secondTx \<Rightarrow>
          if info_poolType tx = info_poolType secondTx
          then classify_first secondTxMap rest (dis, still @ [tx], toQ, toP)
          else if info_poolType tx = Pending \<and> info_poolType secondTx = Queued
          then classify_first secondTxMap rest (dis, still, toQ @ [tx], toP)
          else if info_poolType tx = Queued \<and> info_poolType secondTx = Pending
          then classify_first secondTxMap rest (dis, still, toQ, toP @ [tx])
          else classify_first secondTxMap rest (dis, still, toQ, toP))"

text \<open>The second loop: the entries of the second file whose hash the first map lacks.\<close>

fun classify_second ::
  "(string \<rightharpoonup> TransactionInfo) \<Rightarrow> TransactionInfo list \<Rightarrow> TransactionInfo list \<Rightarrow> TransactionInfo list" where
  "classify_second firstTxMap [] newTxs = newTxs"
| "classify_second firstTxMap (tx # rest) newTxs =
     (if firstTxMap (info_hash tx) = None
      then classify_second firstTxMap rest (newTxs @ [tx])
      else classify_second firstTxMap rest newTxs)"

record Summary =
  totalDisappeared :: nat
  totalNew :: nat
  totalStillPending :: nat
  totalMovedToQueued :: nat
  totalMovedToPending :: nat
  firstFileTime :: string
  secondFileTime :: string

record ComparisonResult =
  disappearedTransactions :: "TransactionInfo list"
  newTransactions :: "TransactionInfo list"
  stillPending :: "TransactionInfo list"
  movedToQueued :: "TransactionInfo list"
  movedToPending :: "TransactionInfo list"
  summary :: Summary

text \<open>What \<^verbatim>\<open>loadMempoolFile\<close> returns for a file that parses.\<close>

record MempoolFile =
  file_data :: MempoolResult
  file_timestamp :: string

text \<open>
  \<^verbatim>\<open>compareFiles\<close> from the two loaded files on; reading and parsing the files and
  the console output are outside the model.
\<close>

definition compareFiles :: "MempoolFile \<Rightarrow> MempoolFile \<Rightarrow> ComparisonResult" where
  "compareFiles firstMempool secondMempool =
     (let firstTransactions = extractAllTransactions (file_data firstMempool);
          secondTransactions = extractAllTransactions (file_data secondMempool);
          firstTxMap = txMap firstTransactions;
          secondTxMap = txMap secondTransactions;
          (dis, still, toQ, toP) = classify_first secondTxMap firstTransactions ([], [], [], []);
          newTxs = classify_second firstTxMap secondTransactions []
      in \<lparr> disappearedTransactions = dis, newTransactions = newTxs, stillPending = still,
           movedToQueued = toQ, movedToPending = toP,
           summary = \<lparr> totalDisappeared = length dis, totalNew = length newTxs,
                       totalStillPending = length still, totalMovedToQueued = length toQ,
                       totalMovedToPending = length toP,
                       firstFileTime = file_timestamp firstMempool,
                       secondFileTime = file_timestamp secondMempool \<rparr> \<rparr>)"

text \<open>The set of hashes of a sequence of entries.\<close>

definition hashes :: "TransactionInfo list \<Rightarrow> string set" where
  "hashes transactions = info_hash ` set transactions"

text \<open>
  Every entry of a sequence with the same hash has the same pool type. This holds of
  every extraction whose hashes are unique.
\<close>

definition single_pool :: "TransactionInfo list \<Rightarrow> bool" where
  "single_pool transactions =
     (\<forall>e \<in> set transactions. \<forall>e' \<in> set transactions.
        info_hash e = info_hash e' \<longrightarrow> info_poolType e = info_poolType e')"

text \<open>
  The \<open>(address, nonce)\<close> pairs present in one sub-pool, each with its pool type and
  transaction, in enumeration order: what the extractor is specified to produce one
  entry for.
\<close>

definition pairs_of :: "PoolType \<Rightarrow> MempoolContent \<Rightarrow> (PoolType \<times> string \<times> string \<times> MempoolTransaction) list" where
  "pairs_of p content =
     concat (map (\<lambda>(address, addressData).
       map (\<lambda>(nonce, tx). (p, address, nonce, tx)) addressData) content)"

definition info_of :: "PoolType \<times> string \<times> string \<times> MempoolTransaction \<Rightarrow> TransactionInfo" where
  "info_of = (\<lambda>(p, address, nonce, tx). mk_info p address nonce tx)"

definition info_key :: "TransactionInfo \<Rightarrow> PoolType \<times> string \<times> string" where
  "info_key e = (info_poolType e, info_address e, info_nonce e)"

section \<open>The collector's count (mempool-collector.ts)\<close>

definition Object_keys :: "'v js_object \<Rightarrow> string list" where
  "Object_keys obj = map fst obj"

definition Object_values :: "'v js_object \<Rightarrow> 'v list" where
  "Object_values obj = map snd obj"

text \<open>One counting loop of \<^verbatim>\<open>countTransactions\<close>; \<open>n\<close> is the running count.\<close>

fun count_loop :: "AddressData list \<Rightarrow> nat \<Rightarrow> nat" where
  "count_loop [] n = n"
| "count_loop (addressData # rest) n = count_loop rest (n + length (Object_keys addressData))"

record TransactionCounts =
  pendingTransactions :: nat
  queuedTransactions :: nat

definition countTransactions :: "MempoolResult \<Rightarrow> TransactionCounts" where
  "countTransactions mempoolData =
     (let pendingCount = count_loop (Object_values (or_empty (pending mempoolData))) 0;
          queuedCount = count_loop (Object_values (or_empty (queued mempoolData))) 0
      in \<lparr> pendingTransactions = pendingCount, queuedTransactions = queuedCount \<rparr>)"

section \<open>The monitor (mempool-monitor.ts)\<close>

text \<open>
  A \<^verbatim>\<open>Date\<close> is its time value in milliseconds. The wall clock is a parameter:
  \<open>clk n\<close> is what the \<open>n\<close>-th evaluation of \<^verbatim>\<open>new Date()\<close> of the process
  yields, and the number of evaluations so far is threaded through the code that
  makes them. Nothing is assumed of the clock, not even that it is monotone.
\<close>

type_synonym timestamp = int

type_synonym clock = "nat \<Rightarrow> timestamp"

record TransactionWithMetadata = MempoolTransaction +
  poolType :: PoolType
  firstSeen :: timestamp

text \<open>
  The fields of the class that \<^verbatim>\<open>checkMempool\<close> reads and writes;
  \<open>walletAddress\<close> is \<^verbatim>\<open>config.walletAddress\<close> as the constructor normalised it.
\<close>

record MempoolMonitor =
  walletAddress :: string
  seenTransactions :: "string set"
  firstSeenTimes :: "string \<rightharpoonup> timestamp"

text \<open>The state the constructor leaves: both containers empty.\<close>

definition new_MempoolMonitor :: "string \<Rightarrow> MempoolMonitor" where
  "new_MempoolMonitor address =
     \<lparr> walletAddress = address, seenTransactions = {}, firstSeenTimes = Map.empty \<rparr>"

text \<open>
  The object literal \<^verbatim>\<open>{ ...tx, poolType, firstSeen: new Date(), nonce }\<close>, with the
  date already evaluated.
\<close>

definition with_metadata ::
  "MempoolTransaction \<Rightarrow> PoolType \<Rightarrow> timestamp \<Rightarrow> string \<Rightarrow> TransactionWithMetadata" where
  "with_metadata tx p date nonce =
     MempoolTransaction.extend (tx\<lparr>tx_nonce := nonce\<rparr>)
       (TransactionWithMetadata.fields p date)"

fun extract_loop ::
  "clock \<Rightarrow> PoolType \<Rightarrow> AddressData \<Rightarrow> TransactionWithMetadata list \<times> nat \<Rightarrow>
   TransactionWithMetadata list \<times> nat" where
  "extract_loop clk p [] (transactions, k) = (transactions, k)"
| "extract_loop clk p ((nonce, tx) # rest) (transactions, k) =
     extract_loop clk p rest (transactions @ [with_metadata tx p (clk k) nonce], Suc k)"

definition extractTransactionsFromAddress ::
  "clock \<Rightarrow> AddressData \<Rightarrow> PoolType \<Rightarrow> nat \<Rightarrow> TransactionWithMetadata list \<times> nat" where
  "extractTransactionsFromAddress clk addressData p k = extract_loop clk p addressData ([], k)"

text \<open>
  The state of one run of \<^verbatim>\<open>checkMempool\<close> past the fetch: the monitor, the number
  of dates taken, and the arrays \<^verbatim>\<open>newTransactions\<close> and
  \<^verbatim>\<open>allWalletTransactions\<close>.
\<close>

type_synonym check_state =
  "MempoolMonitor \<times> nat \<times> TransactionWithMetadata list \<times> TransactionWithMetadata list"

text \<open>The loop over \<^verbatim>\<open>addressTransactions\<close>.\<close>

fun check_txs :: "clock \<Rightarrow> TransactionWithMetadata list \<Rightarrow> check_state \<Rightarrow> check_state" where
  "check_txs clk [] st = st"
| "check_txs clk (tx # rest) (m, k, newTxs, allTxs) =
     (if tx_hash tx \<notin> seenTransactions m
      then check_txs clk rest
             (m\<lparr> seenTransactions := insert (tx_hash tx) (seenTransactions m),
                 firstSeenTimes := (firstSeenTimes m)(tx_hash tx \<mapsto> clk k) \<rparr>,
              Suc k, newTxs @ [tx], allTxs @ [tx])
      else check_txs clk rest (m, k, newTxs, allTxs @ [tx]))"

text \<open>\<^verbatim>\<open>mempoolData[poolType]\<close>\<close>

definition pool_at :: "MempoolResult \<Rightarrow> PoolType \<Rightarrow> MempoolContent option" where
  "pool_at mempoolData p = (case p of Pending \<Rightarrow> pending mempoolData | Queued \<Rightarrow> queued mempoolData)"

text \<open>The loop over the pool types.\<close>

fun check_pools :: "clock \<Rightarrow> MempoolResult \<Rightarrow> PoolType list \<Rightarrow> check_state \<Rightarrow> check_state" where
  "check_pools clk mempoolData [] st = st"
| "check_pools clk mempoolData (p # ps) (m, k, newTxs, allTxs) =
     (case pool_at mempoolData p of
        None \<Rightarrow> check_pools clk mempoolData ps (m, k, newTxs, allTxs)
      | Some poolData \<Rightarrow>
          (case map_of poolData (walletAddress m) of
             None \<Rightarrow> check_pools clk mempoolData ps (m, k, newTxs, allTxs)
           | Some addressData \<Rightarrow>
               (let (addressTransactions, k') =
                      extractTransactionsFromAddress clk addressData p k
                in check_pools clk mempoolData ps
                     (check_txs clk addressTransactions (m, k', newTxs, allTxs)))))"

text \<open>
  What one request to the node comes to: the call throws (a network error, a timeout),
  or it returns a response whose \<^verbatim>\<open>result\<close> field is present or not.
  \<^verbatim>\<open>makeApiRequest\<close> turns both failures into \<^verbatim>\<open>null\<close>.
\<close>

datatype api_outcome = RequestFailed | Responded "MempoolResult option"

definition makeApiRequest :: "api_outcome \<Rightarrow> MempoolResult option" where
  "makeApiRequest outcome =
     (case outcome of
        RequestFailed \<Rightarrow> None
      | Responded None \<Rightarrow> None
      | Responded (Some result) \<Rightarrow> Some result)"

record CheckResult =
  cycle_newTransactions :: "TransactionWithMetadata list"
  cycle_allWalletTransactions :: "TransactionWithMetadata list"

text \<open>
  \<^verbatim>\<open>checkMempool\<close>. The argument \<open>fetched\<close> is what \<^verbatim>\<open>makeApiRequest\<close> resolved
  to in this cycle: \<open>None\<close> for \<^verbatim>\<open>null\<close> (a failed request, or a response with no
  result).
\<close>

definition checkMempool ::
  "clock \<Rightarrow> MempoolResult option \<Rightarrow> MempoolMonitor \<times> nat \<Rightarrow> CheckResult \<times> MempoolMonitor \<times> nat" where
  "checkMempool clk fetched = (\<lambda>(m, k).
     case fetched of
       None \<Rightarrow> (\<lparr> cycle_newTransactions = [], cycle_allWalletTransactions = [] \<rparr>, m, k)
     | Some mempoolData \<Rightarrow>
         (let (m', k', newTxs, allTxs) =
                check_pools clk mempoolData [Pending, Queued] (m, k, [], [])
          in (\<lparr> cycle_newTransactions = newTxs, cycle_allWalletTransactions = allTxs \<rparr>, m', k')))"

text \<open>
  The polling loop of \<^verbatim>\<open>start\<close>, for the cycles it gets to run: one element of
  \<open>fetches\<close> per cycle, the results of the cycles in order. After each check,
  \<^verbatim>\<open>displayStatus\<close> takes one more date.
\<close>

fun run_cycles ::
  "clock \<Rightarrow> MempoolResult option list \<Rightarrow> MempoolMonitor \<times> nat \<Rightarrow>
   CheckResult list \<times> MempoolMonitor \<times> nat" where
  "run_cycles clk [] (m, k) = ([], m, k)"
| "run_cycles clk (fetched # rest) (m, k) =
     (let (r, m', k') = checkMempool clk fetched (m, k);
          (rs, m'', k'') = run_cycles clk rest (m', Suc k')
      in (r # rs, m'', k''))"

text \<open>The results and the final monitor of such a run.\<close>

definition run_results ::
  "clock \<Rightarrow> MempoolResult option list \<Rightarrow> MempoolMonitor \<times> nat \<Rightarrow> CheckResult list" where
  "run_results clk fetches st = fst (run_cycles clk fetches st)"

definition run_monitor ::
  "clock \<Rightarrow> MempoolResult option list \<Rightarrow> MempoolMonitor \<times> nat \<Rightarrow> MempoolMonitor" where
  "run_monitor clk fetches st = fst (snd (run_cycles clk fetches st))"

text \<open>The hashes a cycle reported as new.\<close>

definition new_hashes :: "CheckResult \<Rightarrow> string set" where
  "new_hashes r = tx_hash ` set (cycle_newTransactions r)"

section \<open>Auxiliary notions\<close>

text \<open>
  The conditions under which the first loop of \<^verbatim>\<open>compareFiles\<close> pushes an entry
  \<open>tx\<close> to each of its four arrays, \<open>m\<close> being the lookup of the other file; the
  second loop pushes under \<open>goes_dis\<close> with the files exchanged.
\<close>

definition goes_dis :: "(string \<rightharpoonup> TransactionInfo) \<Rightarrow> TransactionInfo \<Rightarrow> bool" where
  "goes_dis m tx = (m (info_hash tx) = None)"

definition goes_still :: "(string \<rightharpoonup> TransactionInfo) \<Rightarrow> TransactionInfo \<Rightarrow> bool" where
  "goes_still m tx =
     (case m (info_hash tx) of None \<Rightarrow> False | Some s \<Rightarrow> info_poolType tx = info_poolType s)"

definition goes_toQ :: "(string \<rightharpoonup> TransactionInfo) \<Rightarrow> TransactionInfo \<Rightarrow> bool" where
  "goes_toQ m tx =
     (case m (info_hash tx) of None \<Rightarrow> False
      | Some s \<Rightarrow> info_poolType tx = Pending \<and> info_poolType s = Queued)"

definition goes_toP :: "(string \<rightharpoonup> TransactionInfo) \<Rightarrow> TransactionInfo \<Rightarrow> bool" where
  "goes_toP m tx =
     (case m (info_hash tx) of None \<Rightarrow> False
      | Some s \<Rightarrow> info_poolType tx = Queued \<and> info_poolType s = Pending)"

text \<open>Inputs for the concrete instances below.\<close>

definition sample_tx :: "string \<Rightarrow> MempoolTransaction" where
  "sample_tx h =
     \<lparr> tx_hash = h, tx_nonce = ''0x5'', tx_from = ''0x1'', tx_to = ''0x2'',
       tx_value = ''0x0'', tx_gas = ''0x5208'', tx_gasPrice = ''0x3b9aca00'', tx_data = ''0x'',
       tx_v = None, tx_r = None, tx_s = None, tx_type = None, tx_accessList = None,
       tx_maxFeePerGas = None, tx_maxPriorityFeePerGas = None \<rparr>"

definition mk_file :: "MempoolContent option \<Rightarrow> MempoolContent option \<Rightarrow> string \<Rightarrow> MempoolFile" where
  "mk_file p q t = \<lparr> file_data = \<lparr> pending = p, queued = q \<rparr>, file_timestamp = t \<rparr>"

definition dup_first :: MempoolFile where
  "dup_first = mk_file (Some [(''0x1'', [(''5'', sample_tx ''0xaa'')])])
                       (Some [(''0x1'', [(''6'', sample_tx ''0xaa'')])]) ''t1''"

definition dup_second :: MempoolFile where
  "dup_second = mk_file (Some [(''0x1'', [(''5'', sample_tx ''0xaa'')])]) None ''t2''"

definition swap_first :: MempoolFile where
  "swap_first = mk_file (Some [(''0x1'', [(''7'', sample_tx ''0xbb'')])])
                        (Some [(''0x1'', [(''8'', sample_tx ''0xbb'')])]) ''t1''"

definition swap_second :: MempoolFile where
  "swap_second = mk_file None (Some [(''0x1'', [(''8'', sample_tx ''0xbb'')])]) ''t2''"

definition ok_first :: MempoolFile where
  "ok_first = mk_file (Some [(''0x1'', [(''5'', sample_tx ''0xaa''), (''6'', sample_tx ''0xbb'')])])
                      (Some [(''0x3'', [(''9'', sample_tx ''0xdd'')]), (''0x4'', [(''1'', sample_tx ''0xee'')])])
                      ''t1''"

definition ok_second :: MempoolFile where
  "ok_second = mk_file (Some [(''0x2'', [(''0'', sample_tx ''0xcc'')]), (''0x4'', [(''1'', sample_tx ''0xee'')])])
                       (Some [(''0x1'', [(''6'', sample_tx ''0xbb'')]), (''0x3'', [(''9'', sample_tx ''0xdd'')])])
                       ''t2''"

definition twice_data :: MempoolResult where
  "twice_data = \<lparr> pending = Some [(''0x1'', [(''5'', sample_tx ''0xaa''), (''6'', sample_tx ''0xaa'')])],
                  queued = None \<rparr>"

text \<open>
  How one state of a check relates to a later one: the wallet is the same, the seen set
  has grown, the hashes newly reported lie in the growth, the dates of the hashes seen
  before are untouched, and the two conditions that the containers have the same keys
  and that the reported entries are distinct and seen carry over.
\<close>

fun grows :: "check_state \<Rightarrow> check_state \<Rightarrow> bool" where
  "grows (m, k, n, a) (m', k', n', a') =
     (walletAddress m' = walletAddress m \<and>
      seenTransactions m \<subseteq> seenTransactions m' \<and>
      tx_hash ` set n' \<subseteq> tx_hash ` set n \<union> (seenTransactions m' - seenTransactions m) \<and>
      (\<forall>h \<in> seenTransactions m. firstSeenTimes m' h = firstSeenTimes m h) \<and>
      (seenTransactions m = dom (firstSeenTimes m) \<longrightarrow>
         seenTransactions m' = dom (firstSeenTimes m')) \<and>
      (distinct (map tx_hash n) \<and> tx_hash ` set n \<subseteq> seenTransactions m \<longrightarrow>
         distinct (map tx_hash n') \<and> tx_hash ` set n' \<subseteq> seenTransactions m'))"

text \<open>
  A run of five cycles for the wallet \<open>0xW\<close>: two transactions appear; the fetch
  fails; one of them moves to queued and a third appears; the pool is empty; the first
  reappears.
\<close>

definition clock0 :: clock where
  "clock0 n = 1000 + int n"

definition wallet0 :: string where
  "wallet0 = ''0xW''"

definition cycle1 :: MempoolResult where
  "cycle1 = \<lparr> pending = Some [(''0xW'', [(''1'', sample_tx ''0x1''), (''2'', sample_tx ''0x2'')])],
               queued = Some [] \<rparr>"

definition cycle3 :: MempoolResult where
  "cycle3 = \<lparr> pending = Some [(''0xW'', [(''3'', sample_tx ''0x3'')])],
               queued = Some [(''0xW'', [(''2'', sample_tx ''0x2'')])] \<rparr>"

definition cycle4 :: MempoolResult where
  "cycle4 = \<lparr> pending = None, queued = None \<rparr>"

definition cycle5 :: MempoolResult where
  "cycle5 = \<lparr> pending = Some [(''0xW'', [(''1'', sample_tx ''0x1'')])], queued = None \<rparr>"

definition fetches0 :: "MempoolResult option list" where
  "fetches0 = [Some cycle1, None, Some cycle3, Some cycle4, Some cycle5]"

section \<open>The extractor and the lookup, in closed form\<close>

lemma extract_nonces_eq:
  "extract_nonces p address addressData transactions =
     transactions @ map (\<lambda>(nonce, tx). mk_info p address nonce tx) addressData"
  by (induction addressData arbitrary: transactions) auto

lemma extract_pool_eq:
  "extract_pool p content transactions = transactions @ map info_of (pairs_of p content)"
  by (induction content arbitrary: transactions)
     (auto simp: extract_nonces_eq pairs_of_def info_of_def comp_def split_def)

lemma extractAllTransactions_eq:
  "extractAllTransactions d =
     map info_of (pairs_of Pending (or_empty (pending d))) @
     map info_of (pairs_of Queued (or_empty (queued d)))"
  by (simp add: extractAllTransactions_def extract_pool_eq)

lemma foldl_set_eq:
  "foldl (\<lambda>m (k, v). m(k \<mapsto> v)) m0 pairs = m0 ++ map_of (rev pairs)"
  by (induction pairs arbitrary: m0) (auto simp: map_add_upd_left)

lemma new_Map_eq: "new_Map pairs = map_of (rev pairs)"
  by (simp add: new_Map_def foldl_set_eq)

lemma txMap_None: "(txMap xs h = None) = (h \<notin> hashes xs)"
  by (auto simp: txMap_def new_Map_eq hashes_def map_of_eq_None_iff image_iff)

lemma txMap_Some_mem: "txMap xs h = Some e \<Longrightarrow> e \<in> set xs \<and> info_hash e = h"
  by (auto simp: txMap_def new_Map_eq dest!: map_of_SomeD)

section \<open>The differ\<close>

lemma classify_first_eq:
  "classify_first m xs (d, s, q, p) =
    (d @ filter (goes_dis m) xs, s @ filter (goes_still m) xs,
     q @ filter (goes_toQ m) xs, p @ filter (goes_toP m) xs)"
  by (induction xs arbitrary: d s q p)
     (auto simp: goes_dis_def goes_still_def goes_toQ_def goes_toP_def split: option.splits)

lemma classify_second_eq:
  "classify_second m xs acc = acc @ filter (goes_dis m) xs"
  by (induction xs arbitrary: acc) (auto simp: goes_dis_def)

lemma compareFiles_fields:
  "disappearedTransactions (compareFiles A B) =
     filter (goes_dis (txMap (extractAllTransactions (file_data B)))) (extractAllTransactions (file_data A))"
  "stillPending (compareFiles A B) =
     filter (goes_still (txMap (extractAllTransactions (file_data B)))) (extractAllTransactions (file_data A))"
  "movedToQueued (compareFiles A B) =
     filter (goes_toQ (txMap (extractAllTransactions (file_data B)))) (extractAllTransactions (file_data A))"
  "movedToPending (compareFiles A B) =
     filter (goes_toP (txMap (extractAllTransactions (file_data B)))) (extractAllTransactions (file_data A))"
  "newTransactions (compareFiles A B) =
     filter (goes_dis (txMap (extractAllTransactions (file_data A)))) (extractAllTransactions (file_data B))"
  by (simp_all add: compareFiles_def Let_def classify_first_eq classify_second_eq)

lemma hashes_dis: "hashes (filter (goes_dis (txMap ys)) xs) = hashes xs - hashes ys"
  by (auto simp: hashes_def goes_dis_def txMap_None)

lemma PoolType_cases: "p = q \<or> (p = Pending \<and> q = Queued) \<or> (p = Queued \<and> q = Pending)"
  by (cases p; cases q) auto

lemma hashes_moved_union:
  "hashes (filter (goes_still (txMap ys)) xs) \<union> hashes (filter (goes_toQ (txMap ys)) xs)
     \<union> hashes (filter (goes_toP (txMap ys)) xs) = hashes xs \<inter> hashes ys"
proof (rule set_eqI)
  fix h
  show "h \<in> hashes (filter (goes_still (txMap ys)) xs) \<union> hashes (filter (goes_toQ (txMap ys)) xs)
     \<union> hashes (filter (goes_toP (txMap ys)) xs) \<longleftrightarrow> h \<in> hashes xs \<inter> hashes ys"
  proof
    assume "h \<in> hashes (filter (goes_still (txMap ys)) xs) \<union> hashes (filter (goes_toQ (txMap ys)) xs)
     \<union> hashes (filter (goes_toP (txMap ys)) xs)"
    then obtain e where e: "e \<in> set xs" "info_hash e = h"
       "goes_still (txMap ys) e \<or> goes_toQ (txMap ys) e \<or> goes_toP (txMap ys) e"
      by (auto simp: hashes_def)
    from e(3) have "txMap ys (info_hash e) \<noteq> None"
      by (auto simp: goes_still_def goes_toQ_def goes_toP_def split: option.splits)
    with e show "h \<in> hashes xs \<inter> hashes ys"
      by (auto simp: txMap_None hashes_def)
  next
    assume "h \<in> hashes xs \<inter> hashes ys"
    then obtain e where e: "e \<in> set xs" "info_hash e = h" and "h \<in> hashes ys"
      by (auto simp: hashes_def)
    then obtain s where s: "txMap ys (info_hash e) = Some s"
      using txMap_None [of ys h] by auto
    from PoolType_cases [of "info_poolType e" "info_poolType s"] s
    have "goes_still (txMap ys) e \<or> goes_toQ (txMap ys) e \<or> goes_toP (txMap ys) e"
      by (auto simp: goes_still_def goes_toQ_def goes_toP_def)
    with e show "h \<in> hashes (filter (goes_still (txMap ys)) xs) \<union> hashes (filter (goes_toQ (txMap ys)) xs)
     \<union> hashes (filter (goes_toP (txMap ys)) xs)"
      by (auto simp: hashes_def)
  qed
qed

lemma hashes_moved_subset:
  "hashes (filter (goes_still (txMap ys)) xs) \<subseteq> hashes xs \<inter> hashes ys"
  "hashes (filter (goes_toQ (txMap ys)) xs) \<subseteq> hashes xs \<inter> hashes ys"
  "hashes (filter (goes_toP (txMap ys)) xs) \<subseteq> hashes xs \<inter> hashes ys"
  using hashes_moved_union [of ys xs] by (blast, blast, blast)

lemma single_pool_same:
  "single_pool xs \<Longrightarrow> e \<in> set xs \<Longrightarrow> e' \<in> set xs \<Longrightarrow> info_hash e = info_hash e' \<Longrightarrow>
   info_poolType e = info_poolType e'"
  unfolding single_pool_def by blast

lemma goes_cases:
  "goes_still m e \<Longrightarrow> \<exists>s. m (info_hash e) = Some s \<and> info_poolType e = info_poolType s"
  "goes_toQ m e \<Longrightarrow> \<exists>s. m (info_hash e) = Some s \<and> info_poolType e = Pending \<and> info_poolType s = Queued"
  "goes_toP m e \<Longrightarrow> \<exists>s. m (info_hash e) = Some s \<and> info_poolType e = Queued \<and> info_poolType s = Pending"
  by (simp_all add: goes_still_def goes_toQ_def goes_toP_def split: option.splits)

text \<open>
  Both moves are decided by the pool type of the one entry the lookup holds for the
  hash, so no hash is in both, whatever the first file lists.
\<close>

lemma moved_disjoint:
  "hashes (filter (goes_toQ m) xs) \<inter> hashes (filter (goes_toP m) xs) = {}"
proof -
  have c: False if "info_hash e = info_hash e'" "goes_toQ m e" "goes_toP m e'" for e e'
    using goes_cases(2) [OF that(2)] goes_cases(3) [OF that(3)] that(1)
    by auto
  show ?thesis
    using c by (auto simp: hashes_def)
qed

lemma single_pool_disjoint:
  assumes sp: "single_pool xs"
  shows "hashes (filter (goes_still m) xs) \<inter> hashes (filter (goes_toQ m) xs) = {}"
    and "hashes (filter (goes_still m) xs) \<inter> hashes (filter (goes_toP m) xs) = {}"
proof -
  have a: False if "e \<in> set xs" "e' \<in> set xs" "info_hash e = info_hash e'"
      "goes_still m e" "goes_toQ m e'" for e e'
    using single_pool_same [OF sp that(1,2,3)] goes_cases(1) [OF that(4)] goes_cases(2) [OF that(5)] that(3)
    by auto
  have b: False if "e \<in> set xs" "e' \<in> set xs" "info_hash e = info_hash e'"
      "goes_still m e" "goes_toP m e'" for e e'
    using single_pool_same [OF sp that(1,2,3)] goes_cases(1) [OF that(4)] goes_cases(3) [OF that(5)] that(3)
    by auto
  show "hashes (filter (goes_still m) xs) \<inter> hashes (filter (goes_toQ m) xs) = {}"
    using a by (auto simp: hashes_def)
  show "hashes (filter (goes_still m) xs) \<inter> hashes (filter (goes_toP m) xs) = {}"
    using b by (auto simp: hashes_def)
qed

lemmas eval_compare = compareFiles_def extractAllTransactions_def or_empty_def txMap_def
  new_Map_def mk_info_def mk_file_def sample_tx_def hashes_def Let_def

lemma single_pool_ok:
  "single_pool (extractAllTransactions (file_data ok_first))"
  "single_pool (extractAllTransactions (file_data ok_second))"
  by (simp_all add: single_pool_def ok_first_def ok_second_def eval_compare)

subsection \<open>The five categories as hash sets\<close>

text \<open>
  C1, as the code has it. For every pair of files the categories drawn from the first
  file cover exactly its hashes, the new entries together with the common hashes cover
  exactly the hashes of the second file, \<open>disappeared\<close> and \<open>new\<close> are each
  disjoint from every other category, and \<open>movedToQueued\<close> is disjoint from
  \<open>movedToPending\<close>. The category \<open>stillPending\<close> is disjoint from
  \<open>movedToQueued\<close> and from \<open>movedToPending\<close> when no hash of the first file
  occurs there under both pool types: the first loop classifies entries, not hashes, so
  a hash that the first file lists once as pending and once as queued is pushed to
  \<open>stillPending\<close> for one entry and to a moved category for the other.
\<close>

theorem compareFiles_partition:
  "(let r = compareFiles A B;
        F = hashes (extractAllTransactions (file_data A));
        S = hashes (extractAllTransactions (file_data B));
        dis = hashes (disappearedTransactions r); new = hashes (newTransactions r);
        still = hashes (stillPending r); toQ = hashes (movedToQueued r);
        toP = hashes (movedToPending r)
    in still \<union> toQ \<union> toP \<union> dis = F \<and>
       new \<union> (F \<inter> S) = S \<and>
       dis \<union> new \<union> still \<union> toQ \<union> toP = F \<union> S \<and>
       dis \<inter> new = {} \<and> dis \<inter> still = {} \<and> dis \<inter> toQ = {} \<and> dis \<inter> toP = {} \<and>
       new \<inter> still = {} \<and> new \<inter> toQ = {} \<and> new \<inter> toP = {} \<and>
       toQ \<inter> toP = {} \<and>
       (single_pool (extractAllTransactions (file_data A)) \<longrightarrow>
          still \<inter> toQ = {} \<and> still \<inter> toP = {}))"
proof -
  let ?xs = "extractAllTransactions (file_data A)"
  let ?ys = "extractAllTransactions (file_data B)"
  define F where "F = hashes ?xs"
  define S where "S = hashes ?ys"
  define dis where "dis = hashes (filter (goes_dis (txMap ?ys)) ?xs)"
  define new where "new = hashes (filter (goes_dis (txMap ?xs)) ?ys)"
  define still where "still = hashes (filter (goes_still (txMap ?ys)) ?xs)"
  define toQ where "toQ = hashes (filter (goes_toQ (txMap ?ys)) ?xs)"
  define toP where "toP = hashes (filter (goes_toP (txMap ?ys)) ?xs)"
  have u: "still \<union> toQ \<union> toP = F \<inter> S"
    unfolding still_def toQ_def toP_def F_def S_def by (rule hashes_moved_union)
  have d: "dis = F - S" "new = S - F"
    unfolding dis_def new_def F_def S_def by (rule hashes_dis)+
  have m: "toQ \<inter> toP = {}"
    unfolding toQ_def toP_def by (rule moved_disjoint)
  have p: "single_pool ?xs \<longrightarrow> still \<inter> toQ = {} \<and> still \<inter> toP = {}"
    unfolding still_def toQ_def toP_def using single_pool_disjoint by blast
  have "still \<union> toQ \<union> toP \<union> dis = F \<and>
       new \<union> (F \<inter> S) = S \<and>
       dis \<union> new \<union> still \<union> toQ \<union> toP = F \<union> S \<and>
       dis \<inter> new = {} \<and> dis \<inter> still = {} \<and> dis \<inter> toQ = {} \<and> dis \<inter> toP = {} \<and>
       new \<inter> still = {} \<and> new \<inter> toQ = {} \<and> new \<inter> toP = {} \<and>
       toQ \<inter> toP = {} \<and>
       (single_pool ?xs \<longrightarrow> still \<inter> toQ = {} \<and> still \<inter> toP = {})"
    using u m p unfolding d by blast
  then show ?thesis
    unfolding Let_def compareFiles_fields dis_def new_def still_def toQ_def toP_def F_def S_def .
qed

text \<open>
  An instance: in \<open>ok_first\<close> every hash has one pool type; of its four hashes
  one disappears, one moves to queued, one stays and one moves to pending.
\<close>

theorem compareFiles_partition_witness:
  "single_pool (extractAllTransactions (file_data ok_first)) \<and>
   hashes (stillPending (compareFiles ok_first ok_second)) \<inter>
     hashes (movedToQueued (compareFiles ok_first ok_second)) = {} \<and>
   hashes (stillPending (compareFiles ok_first ok_second)) \<inter>
     hashes (movedToPending (compareFiles ok_first ok_second)) = {} \<and>
   hashes (movedToQueued (compareFiles ok_first ok_second)) \<inter>
     hashes (movedToPending (compareFiles ok_first ok_second)) = {} \<and>
   hashes (stillPending (compareFiles ok_first ok_second)) \<union>
     hashes (movedToQueued (compareFiles ok_first ok_second)) \<union>
     hashes (movedToPending (compareFiles ok_first ok_second)) \<union>
     hashes (disappearedTransactions (compareFiles ok_first ok_second)) =
     hashes (extractAllTransactions (file_data ok_first))"
  using compareFiles_partition [of ok_first ok_second] single_pool_ok(1)
  by (simp add: Let_def)

text \<open>
  The claim as the specification words it, disjointness for every pair of files, fails:
  \<open>dup_first\<close> lists the hash \<open>0xaa\<close> under \<open>pending\<close> and under \<open>queued\<close>,
  \<open>dup_second\<close> lists it under \<open>pending\<close>, and the hash is reported both as still in
  the same pool and as moved to pending.
\<close>

theorem compareFiles_partition_counterexample:
  "hashes (stillPending (compareFiles dup_first dup_second)) \<inter>
   hashes (movedToPending (compareFiles dup_first dup_second)) \<noteq> {}"
  by (simp add: dup_first_def dup_second_def eval_compare)

subsection \<open>Exchanging the two files\<close>

lemma txMap_mem_pool:
  assumes "single_pool xs" "e \<in> set xs"
  shows "\<exists>s. txMap xs (info_hash e) = Some s \<and> info_poolType s = info_poolType e"
proof -
  from assms(2) have "info_hash e \<in> hashes xs" by (simp add: hashes_def)
  then obtain s where s: "txMap xs (info_hash e) = Some s"
    using txMap_None [of xs "info_hash e"] by auto
  from txMap_Some_mem [OF s] have "s \<in> set xs" "info_hash s = info_hash e" by simp_all
  with single_pool_same [OF assms(1) this(1) assms(2)] s show ?thesis by simp
qed

lemma swap_toQ_subset:
  assumes "single_pool xs"
  shows "hashes (filter (goes_toQ (txMap ys)) xs) \<subseteq> hashes (filter (goes_toP (txMap xs)) ys)"
proof
  fix h assume "h \<in> hashes (filter (goes_toQ (txMap ys)) xs)"
  then obtain e where e: "e \<in> set xs" "info_hash e = h" "goes_toQ (txMap ys) e"
    by (auto simp: hashes_def)
  from goes_cases(2) [OF e(3)] obtain s where
    s: "txMap ys (info_hash e) = Some s" "info_poolType e = Pending" "info_poolType s = Queued"
    by blast
  from txMap_Some_mem [OF s(1)] have s': "s \<in> set ys" "info_hash s = info_hash e" by simp_all
  from txMap_mem_pool [OF assms e(1)] obtain f where
    "txMap xs (info_hash e) = Some f" "info_poolType f = info_poolType e" by blast
  with s s' have "goes_toP (txMap xs) s" by (simp add: goes_toP_def)
  with s' e(2) show "h \<in> hashes (filter (goes_toP (txMap xs)) ys)"
    by (auto simp: hashes_def)
qed

lemma swap_toP_subset:
  assumes "single_pool xs"
  shows "hashes (filter (goes_toP (txMap ys)) xs) \<subseteq> hashes (filter (goes_toQ (txMap xs)) ys)"
proof
  fix h assume "h \<in> hashes (filter (goes_toP (txMap ys)) xs)"
  then obtain e where e: "e \<in> set xs" "info_hash e = h" "goes_toP (txMap ys) e"
    by (auto simp: hashes_def)
  from goes_cases(3) [OF e(3)] obtain s where
    s: "txMap ys (info_hash e) = Some s" "info_poolType e = Queued" "info_poolType s = Pending"
    by blast
  from txMap_Some_mem [OF s(1)] have s': "s \<in> set ys" "info_hash s = info_hash e" by simp_all
  from txMap_mem_pool [OF assms e(1)] obtain f where
    "txMap xs (info_hash e) = Some f" "info_poolType f = info_poolType e" by blast
  with s s' have "goes_toQ (txMap xs) s" by (simp add: goes_toQ_def)
  with s' e(2) show "h \<in> hashes (filter (goes_toQ (txMap xs)) ys)"
    by (auto simp: hashes_def)
qed

lemma swap_still_subset:
  assumes "single_pool xs"
  shows "hashes (filter (goes_still (txMap ys)) xs) \<subseteq> hashes (filter (goes_still (txMap xs)) ys)"
proof
  fix h assume "h \<in> hashes (filter (goes_still (txMap ys)) xs)"
  then obtain e where e: "e \<in> set xs" "info_hash e = h" "goes_still (txMap ys) e"
    by (auto simp: hashes_def)
  from goes_cases(1) [OF e(3)] obtain s where
    s: "txMap ys (info_hash e) = Some s" "info_poolType e = info_poolType s"
    by blast
  from txMap_Some_mem [OF s(1)] have s': "s \<in> set ys" "info_hash s = info_hash e" by simp_all
  from txMap_mem_pool [OF assms e(1)] obtain f where
    "txMap xs (info_hash e) = Some f" "info_poolType f = info_poolType e" by blast
  with s s' have "goes_still (txMap xs) s" by (simp add: goes_still_def)
  with s' e(2) show "h \<in> hashes (filter (goes_still (txMap xs)) ys)"
    by (auto simp: hashes_def)
qed

lemma swap_moved_eq:
  assumes "single_pool xs" and "single_pool ys"
  shows "hashes (filter (goes_toQ (txMap ys)) xs) = hashes (filter (goes_toP (txMap xs)) ys)"
    and "hashes (filter (goes_toP (txMap ys)) xs) = hashes (filter (goes_toQ (txMap xs)) ys)"
    and "hashes (filter (goes_still (txMap ys)) xs) = hashes (filter (goes_still (txMap xs)) ys)"
proof -
  show "hashes (filter (goes_toQ (txMap ys)) xs) = hashes (filter (goes_toP (txMap xs)) ys)"
    using swap_toQ_subset [OF assms(1)] swap_toP_subset [OF assms(2)] by (rule subset_antisym)
  show "hashes (filter (goes_toP (txMap ys)) xs) = hashes (filter (goes_toQ (txMap xs)) ys)"
    using swap_toP_subset [OF assms(1)] swap_toQ_subset [OF assms(2)] by (rule subset_antisym)
  show "hashes (filter (goes_still (txMap ys)) xs) = hashes (filter (goes_still (txMap xs)) ys)"
    using swap_still_subset [OF assms(1)] swap_still_subset [OF assms(2)] by (rule subset_antisym)
qed

text \<open>
  C8, as the code has it. For every pair of files, exchanging them exchanges
  \<open>disappeared\<close> with \<open>new\<close>. When in each of the two files every hash has one
  pool type, exchanging the files also exchanges \<open>movedToQueued\<close> with
  \<open>movedToPending\<close>, and keeps the hashes of \<open>stillPending\<close>.
\<close>

theorem compareFiles_swap:
  "hashes (disappearedTransactions (compareFiles A B)) = hashes (newTransactions (compareFiles B A)) \<and>
   hashes (newTransactions (compareFiles A B)) = hashes (disappearedTransactions (compareFiles B A)) \<and>
   (single_pool (extractAllTransactions (file_data A)) \<and>
    single_pool (extractAllTransactions (file_data B)) \<longrightarrow>
      hashes (movedToQueued (compareFiles A B)) = hashes (movedToPending (compareFiles B A)) \<and>
      hashes (movedToPending (compareFiles A B)) = hashes (movedToQueued (compareFiles B A)) \<and>
      hashes (stillPending (compareFiles A B)) = hashes (stillPending (compareFiles B A)))"
proof (intro conjI impI)
  show "hashes (disappearedTransactions (compareFiles A B)) = hashes (newTransactions (compareFiles B A))"
    by (simp add: compareFiles_fields)
  show "hashes (newTransactions (compareFiles A B)) = hashes (disappearedTransactions (compareFiles B A))"
    by (simp add: compareFiles_fields)
next
  assume "single_pool (extractAllTransactions (file_data A)) \<and>
          single_pool (extractAllTransactions (file_data B))"
  then have a: "single_pool (extractAllTransactions (file_data A))"
    and b: "single_pool (extractAllTransactions (file_data B))" by simp_all
  show "hashes (movedToQueued (compareFiles A B)) = hashes (movedToPending (compareFiles B A))"
    unfolding compareFiles_fields by (rule swap_moved_eq(1) [OF a b])
  show "hashes (movedToPending (compareFiles A B)) = hashes (movedToQueued (compareFiles B A))"
    unfolding compareFiles_fields by (rule swap_moved_eq(2) [OF a b])
  show "hashes (stillPending (compareFiles A B)) = hashes (stillPending (compareFiles B A))"
    unfolding compareFiles_fields by (rule swap_moved_eq(3) [OF a b])
qed

text \<open>An instance, on \<open>ok_first\<close> and \<open>ok_second\<close>.\<close>

theorem compareFiles_swap_witness:
  "single_pool (extractAllTransactions (file_data ok_first)) \<and>
   single_pool (extractAllTransactions (file_data ok_second)) \<and>
   hashes (movedToQueued (compareFiles ok_first ok_second)) = {''0xbb''} \<and>
   hashes (movedToPending (compareFiles ok_second ok_first)) = {''0xbb''} \<and>
   hashes (movedToPending (compareFiles ok_first ok_second)) = {''0xee''} \<and>
   hashes (movedToQueued (compareFiles ok_second ok_first)) = {''0xee''} \<and>
   hashes (disappearedTransactions (compareFiles ok_first ok_second)) = {''0xaa''} \<and>
   hashes (newTransactions (compareFiles ok_second ok_first)) = {''0xaa''} \<and>
   hashes (stillPending (compareFiles ok_first ok_second)) = {''0xdd''} \<and>
   hashes (stillPending (compareFiles ok_second ok_first)) = {''0xdd''}"
proof -
  have mq: "hashes (movedToQueued (compareFiles ok_first ok_second)) = {''0xbb''}"
    by (simp add: ok_first_def ok_second_def eval_compare)
  have mv: "hashes (movedToPending (compareFiles ok_first ok_second)) = {''0xee''}"
    by (simp add: ok_first_def ok_second_def eval_compare)
  have d: "hashes (disappearedTransactions (compareFiles ok_first ok_second)) = {''0xaa''}"
    by (simp add: ok_first_def ok_second_def eval_compare)
  have s: "hashes (stillPending (compareFiles ok_first ok_second)) = {''0xdd''}"
    by (simp add: ok_first_def ok_second_def eval_compare)
  note t = compareFiles_swap [of ok_first ok_second]
  from t have 1: "hashes (disappearedTransactions (compareFiles ok_first ok_second)) =
      hashes (newTransactions (compareFiles ok_second ok_first))"
    by (rule conjunct1)
  from single_pool_ok have sp: "single_pool (extractAllTransactions (file_data ok_first)) \<and>
      single_pool (extractAllTransactions (file_data ok_second))"
    by (rule conjI)
  have 2: "hashes (movedToQueued (compareFiles ok_first ok_second)) =
             hashes (movedToPending (compareFiles ok_second ok_first)) \<and>
           hashes (movedToPending (compareFiles ok_first ok_second)) =
             hashes (movedToQueued (compareFiles ok_second ok_first)) \<and>
           hashes (stillPending (compareFiles ok_first ok_second)) =
             hashes (stillPending (compareFiles ok_second ok_first))"
    by (rule t [THEN conjunct2, THEN conjunct2, THEN mp, OF sp])
  from 1 2 mq mv d s single_pool_ok show ?thesis by simp
qed

text \<open>
  Without the condition the exchange of the moved categories fails: \<open>swap_first\<close>
  lists \<open>0xbb\<close> as pending and, later in the extraction, as queued;
  \<open>swap_second\<close> lists it as queued. From first to second the pending entry is
  reported as moved to queued; from second to first the lookup of \<open>swap_first\<close>
  answers queued, so nothing is reported as moved to pending.
\<close>

theorem compareFiles_swap_counterexample:
  "hashes (movedToQueued (compareFiles swap_first swap_second)) \<noteq>
   hashes (movedToPending (compareFiles swap_second swap_first))"
  by (simp add: swap_first_def swap_second_def eval_compare)

subsection \<open>Where the reported entries come from\<close>

lemma info_of_pool: "e \<in> info_of ` set (pairs_of p c) \<Longrightarrow> info_poolType e = p"
  by (auto simp: pairs_of_def info_of_def mk_info_def)






subsection \<open>The lookup keeps the last entry\<close>

lemma map_of_rev_last:
  "map_of (rev (map (\<lambda>tx. (f tx, tx)) xs)) h =
     (let occ = filter (\<lambda>e. f e = h) xs in if occ = [] then None else Some (last occ))"
proof (induction xs rule: rev_induct)
  case Nil
  show ?case by simp
next
  case (snoc x xs)
  show ?case
  proof (cases "f x = h")
    case True
    then show ?thesis by (simp add: Let_def)
  next
    case False
    with snoc show ?thesis by (simp add: Let_def)
  qed
qed

lemma txMap_last: "txMap xs h =
     (let occ = filter (\<lambda>e. info_hash e = h) xs in if occ = [] then None else Some (last occ))"
  unfolding txMap_def new_Map_eq by (rule map_of_rev_last)

lemma txMap_append_right:
  assumes "h \<in> hashes ys"
  shows "txMap (xs @ ys) h = txMap ys h"
proof -
  from assms have "filter (\<lambda>e. info_hash e = h) ys \<noteq> []"
    by (auto simp: hashes_def filter_empty_conv)
  then show ?thesis
    by (simp add: txMap_last Let_def)
qed

text \<open>
  C7. The lookup built from a file's extraction maps a hash to the last entry of the
  extraction with that hash. The extraction lists the pending entries before the queued
  ones, so for a hash that occurs among the queued entries the lookup answers with a
  queued entry, whatever the pending sub-pool holds.
\<close>

theorem txMap_last_write_wins:
  "txMap (extractAllTransactions d) h =
     (let occ = filter (\<lambda>e. info_hash e = h) (extractAllTransactions d)
      in if occ = [] then None else Some (last occ)) \<and>
   extractAllTransactions d =
     extract_pool Pending (or_empty (pending d)) [] @ extract_pool Queued (or_empty (queued d)) [] \<and>
   (h \<in> hashes (extract_pool Queued (or_empty (queued d)) []) \<longrightarrow>
      txMap (extractAllTransactions d) h = txMap (extract_pool Queued (or_empty (queued d)) []) h \<and>
      (\<exists>e. txMap (extractAllTransactions d) h = Some e \<and> info_poolType e = Queued))"
proof -
  let ?q = "extract_pool Queued (or_empty (queued d)) []"
  have a: "extractAllTransactions d = extract_pool Pending (or_empty (pending d)) [] @ ?q"
    by (simp add: extractAllTransactions_eq extract_pool_eq)
  have b: "txMap (extractAllTransactions d) h = txMap ?q h \<and>
      (\<exists>e. txMap (extractAllTransactions d) h = Some e \<and> info_poolType e = Queued)"
    if h: "h \<in> hashes ?q"
  proof -
    have 1: "txMap (extractAllTransactions d) h = txMap ?q h"
      unfolding a using h by (rule txMap_append_right)
    from h obtain e where e: "txMap ?q h = Some e"
      using txMap_None [of ?q h] by auto
    from txMap_Some_mem [OF e] have "e \<in> info_of ` set (pairs_of Queued (or_empty (queued d)))"
      by (simp add: extract_pool_eq)
    then have "info_poolType e = Queued" by (rule info_of_pool)
    with 1 e show ?thesis by simp
  qed
  show ?thesis
    by (intro conjI impI) (rule txMap_last, rule a, (rule b [THEN conjunct1], assumption), (rule b [THEN conjunct2], assumption))
qed

text \<open>
  An instance: \<open>swap_first\<close> lists \<open>0xbb\<close> as pending under nonce 7 and as queued
  under nonce 8; the lookup answers with the latter.
\<close>

theorem txMap_last_write_wins_witness:
  "''0xbb'' \<in> hashes (extract_pool Queued (or_empty (queued (file_data swap_first))) []) \<and>
   txMap (extractAllTransactions (file_data swap_first)) ''0xbb'' =
     Some (mk_info Queued ''0x1'' ''8'' (sample_tx ''0xbb''))"
proof -
  have h: "''0xbb'' \<in> hashes (extract_pool Queued (or_empty (queued (file_data swap_first))) [])"
    by (simp add: swap_first_def eval_compare)
  have v: "txMap (extract_pool Queued (or_empty (queued (file_data swap_first))) []) ''0xbb'' =
     Some (mk_info Queued ''0x1'' ''8'' (sample_tx ''0xbb''))"
    by (simp add: swap_first_def eval_compare)
  note t = txMap_last_write_wins [of "file_data swap_first" "''0xbb''", THEN conjunct2, THEN conjunct2]
  from t h have "txMap (extractAllTransactions (file_data swap_first)) ''0xbb'' =
     txMap (extract_pool Queued (or_empty (queued (file_data swap_first))) []) ''0xbb''"
    by blast
  with h v show ?thesis by simp
qed

section \<open>The extractor\<close>

lemma length_pairs_of: "length (pairs_of p c) = (\<Sum>addressData\<leftarrow>map snd c. length addressData)"
  by (induction c) (auto simp: pairs_of_def)

lemma count_loop_eq: "count_loop vals n = n + (\<Sum>addressData\<leftarrow>vals. length addressData)"
  by (induction vals arbitrary: n) (auto simp: Object_keys_def)

lemma count_loop_pairs: "count_loop (Object_values c) 0 = length (pairs_of p c)"
  by (simp add: count_loop_eq length_pairs_of Object_values_def)

lemma filter_pool_same:
  "filter (\<lambda>e. info_poolType e = p) (map info_of (pairs_of p c)) = map info_of (pairs_of p c)"
  by (rule filter_True) (auto simp: pairs_of_def info_of_def mk_info_def)

lemma filter_pool_other:
  "p \<noteq> q \<Longrightarrow> filter (\<lambda>e. info_poolType e = q) (map info_of (pairs_of p c)) = []"
  by (auto simp: filter_empty_conv pairs_of_def info_of_def mk_info_def)

lemma info_key_info_of: "info_key (info_of (p, a, n, tx)) = (p, a, n)"
  by (simp add: info_key_def info_of_def mk_info_def)

lemma map_info_key_pairs:
  "map info_key (map info_of (pairs_of p c)) =
     concat (map (\<lambda>(address, addressData). map (\<lambda>nonce. (p, address, nonce)) (map fst addressData)) c)"
  by (induction c) (auto simp: pairs_of_def info_key_def info_of_def mk_info_def)

lemma distinct_keys_pool:
  "wf_content c \<Longrightarrow> distinct (map info_key (map info_of (pairs_of p c)))"
proof (induction c)
  case Nil
  show ?case by (simp add: pairs_of_def)
next
  case (Cons x c)
  obtain a ad where x: "x = (a, ad)" by (cases x)
  from Cons.prems have wf: "wf_content c" and d: "distinct (map fst ad)" and a: "a \<notin> fst ` set c"
    by (auto simp: x wf_content_def wf_object_def)
  have 1: "distinct (map (\<lambda>nonce. (p, a, nonce)) (map fst ad))"
    using d by (simp add: distinct_map inj_on_def)
  have 2: "(p, a, n) \<notin> set (map info_key (map info_of (pairs_of p c)))" for n
    using a unfolding map_info_key_pairs by force
  have 3: "map info_key (map info_of (pairs_of p (x # c))) =
     map (\<lambda>nonce. (p, a, nonce)) (map fst ad) @ map info_key (map info_of (pairs_of p c))"
    unfolding map_info_key_pairs by (simp add: x)
  show ?case unfolding 3 using 1 2 Cons.IH [OF wf] by auto
qed

lemma keys_pool_type:
  "k \<in> set (map info_key (map info_of (pairs_of p c))) \<Longrightarrow> fst k = p"
  unfolding map_info_key_pairs by auto

lemma distinct_keys_extract:
  assumes "wf_result d"
  shows "distinct (map info_key (extractAllTransactions d))"
proof -
  from assms have wp: "wf_content (or_empty (pending d))" and wq: "wf_content (or_empty (queued d))"
    by (auto simp: wf_result_def or_empty_def wf_content_def wf_object_def split: option.splits)
  have "distinct (map info_key (map info_of (pairs_of Pending (or_empty (pending d)))))"
    using wp by (rule distinct_keys_pool)
  moreover have "distinct (map info_key (map info_of (pairs_of Queued (or_empty (queued d)))))"
    using wq by (rule distinct_keys_pool)
  moreover have "set (map info_key (map info_of (pairs_of Pending (or_empty (pending d))))) \<inter>
                 set (map info_key (map info_of (pairs_of Queued (or_empty (queued d))))) = {}"
  proof -
    have "False" if "k \<in> set (map info_key (map info_of (pairs_of Pending (or_empty (pending d)))))"
        "k \<in> set (map info_key (map info_of (pairs_of Queued (or_empty (queued d)))))" for k
      using keys_pool_type [OF that(1)] keys_pool_type [OF that(2)] by simp
    then show ?thesis unfolding disjoint_iff by blast
  qed
  ultimately show ?thesis
    unfolding extractAllTransactions_eq by simp
qed

text \<open>
  C6. The extraction is the sequence of the \<open>(address, nonce)\<close> pairs present in the
  pending sub-pool followed by those of the queued sub-pool, one entry for each, in
  enumeration order; its length is the number of these pairs. The hashes of the entries
  are the hashes of the transactions under these pairs, repetitions included: nothing is
  merged. In a well-formed result the entries have pairwise different pool type,
  address and nonce, so no pair is listed twice. A missing sub-pool key gives what an
  empty sub-pool gives, and the result of a snapshot with neither key is empty.
\<close>

theorem extractAllTransactions_entries:
  "extractAllTransactions d =
     map info_of (pairs_of Pending (or_empty (pending d)) @ pairs_of Queued (or_empty (queued d))) \<and>
   length (extractAllTransactions d) =
     (\<Sum>addressData\<leftarrow>map snd (or_empty (pending d)). length addressData) +
     (\<Sum>addressData\<leftarrow>map snd (or_empty (queued d)). length addressData) \<and>
   map info_hash (extractAllTransactions d) =
     map (\<lambda>(p, address, nonce, tx). tx_hash tx)
       (pairs_of Pending (or_empty (pending d)) @ pairs_of Queued (or_empty (queued d))) \<and>
   (wf_result d \<longrightarrow> distinct (map info_key (extractAllTransactions d))) \<and>
   extractAllTransactions (d\<lparr>pending := None\<rparr>) = extractAllTransactions (d\<lparr>pending := Some []\<rparr>) \<and>
   extractAllTransactions (d\<lparr>queued := None\<rparr>) = extractAllTransactions (d\<lparr>queued := Some []\<rparr>) \<and>
   extractAllTransactions \<lparr>pending = None, queued = None\<rparr> = []"
proof -
  have h: "map info_hash (map info_of ps) = map (\<lambda>(p, address, nonce, tx). tx_hash tx) ps" for ps
    by (induction ps) (auto simp: info_of_def mk_info_def)
  have e: "extractAllTransactions (d\<lparr>pending := None\<rparr>) = extractAllTransactions (d\<lparr>pending := Some []\<rparr>)"
          "extractAllTransactions (d\<lparr>queued := None\<rparr>) = extractAllTransactions (d\<lparr>queued := Some []\<rparr>)"
          "extractAllTransactions \<lparr>pending = None, queued = None\<rparr> = []"
    by (simp_all add: extractAllTransactions_def or_empty_def)
  have l: "length (extractAllTransactions d) =
     (\<Sum>addressData\<leftarrow>map snd (or_empty (pending d)). length addressData) +
     (\<Sum>addressData\<leftarrow>map snd (or_empty (queued d)). length addressData)"
    by (simp add: extractAllTransactions_eq length_pairs_of)
  have m: "map info_hash (extractAllTransactions d) =
     map (\<lambda>(p, address, nonce, tx). tx_hash tx)
       (pairs_of Pending (or_empty (pending d)) @ pairs_of Queued (or_empty (queued d)))"
    unfolding extractAllTransactions_eq map_append h ..
  have x: "extractAllTransactions d =
     map info_of (pairs_of Pending (or_empty (pending d)) @ pairs_of Queued (or_empty (queued d)))"
    by (simp add: extractAllTransactions_eq)
  show ?thesis
    by (intro conjI impI)
       (rule x, rule l, rule m, erule distinct_keys_extract, rule e(1), rule e(2), rule e(3))
qed

text \<open>
  An instance: one address holds the hash \<open>0xaa\<close> under the nonces 5 and 6; both
  entries are extracted.
\<close>

theorem extractAllTransactions_entries_witness:
  "wf_result twice_data \<and>
   distinct (map info_key (extractAllTransactions twice_data)) \<and>
   extractAllTransactions twice_data =
     [mk_info Pending ''0x1'' ''5'' (sample_tx ''0xaa''), mk_info Pending ''0x1'' ''6'' (sample_tx ''0xaa'')] \<and>
   map info_hash (extractAllTransactions twice_data) = [''0xaa'', ''0xaa'']"
proof -
  have w: "wf_result twice_data"
    by (simp add: twice_data_def wf_result_def wf_content_def wf_object_def)
  have v: "pairs_of Pending (or_empty (pending twice_data)) @ pairs_of Queued (or_empty (queued twice_data)) =
     [(Pending, ''0x1'', ''5'', sample_tx ''0xaa''), (Pending, ''0x1'', ''6'', sample_tx ''0xaa'')]"
    by (simp add: twice_data_def pairs_of_def or_empty_def)
  note t = extractAllTransactions_entries [of twice_data]
  from t have x: "extractAllTransactions twice_data =
     map info_of (pairs_of Pending (or_empty (pending twice_data)) @
                  pairs_of Queued (or_empty (queued twice_data)))"
    by (rule conjunct1)
  from t have "wf_result twice_data \<longrightarrow> distinct (map info_key (extractAllTransactions twice_data))"
    by (elim conjE)
  then have d: "distinct (map info_key (extractAllTransactions twice_data))"
    using w by (rule mp)
  have y: "extractAllTransactions twice_data =
     [mk_info Pending ''0x1'' ''5'' (sample_tx ''0xaa''), mk_info Pending ''0x1'' ''6'' (sample_tx ''0xaa'')]"
    unfolding x v by (simp add: info_of_def)
  have z: "map info_hash (extractAllTransactions twice_data) = [''0xaa'', ''0xaa'']"
    unfolding y by (simp add: mk_info_def sample_tx_def)
  show ?thesis
    by (intro conjI) (rule w, rule d, rule y, rule z)
qed

subsection \<open>The collector counts what the extractor lists\<close>

text \<open>
  C10. The two counts of \<^verbatim>\<open>countTransactions\<close> are the numbers of pending and of
  queued entries of the extraction, and their sum is its length.
\<close>

theorem countTransactions_agrees:
  "pendingTransactions (countTransactions d) =
     length (filter (\<lambda>e. info_poolType e = Pending) (extractAllTransactions d)) \<and>
   queuedTransactions (countTransactions d) =
     length (filter (\<lambda>e. info_poolType e = Queued) (extractAllTransactions d)) \<and>
   pendingTransactions (countTransactions d) + queuedTransactions (countTransactions d) =
     length (extractAllTransactions d)"
  by (simp add: countTransactions_def Let_def extractAllTransactions_eq
        filter_pool_same filter_pool_other count_loop_eq length_pairs_of Object_values_def)

section \<open>The monitor\<close>

lemmas eval_monitor = run_results_def run_monitor_def checkMempool_def
  extractTransactionsFromAddress_def with_metadata_def pool_at_def new_MempoolMonitor_def
  new_hashes_def sample_tx_def clock0_def wallet0_def Let_def
  MempoolTransaction.defs TransactionWithMetadata.defs

lemma grows_refl: "grows st st"
  by (cases st) auto

lemma growsD:
  assumes "grows (m, k, n, a) (m', k', n', a')"
  shows "walletAddress m' = walletAddress m"
    and "seenTransactions m \<subseteq> seenTransactions m'"
    and "tx_hash ` set n' \<subseteq> tx_hash ` set n \<union> (seenTransactions m' - seenTransactions m)"
    and "\<forall>h \<in> seenTransactions m. firstSeenTimes m' h = firstSeenTimes m h"
    and "seenTransactions m = dom (firstSeenTimes m) \<longrightarrow>
           seenTransactions m' = dom (firstSeenTimes m')"
    and "distinct (map tx_hash n) \<and> tx_hash ` set n \<subseteq> seenTransactions m \<longrightarrow>
           distinct (map tx_hash n') \<and> tx_hash ` set n' \<subseteq> seenTransactions m'"
proof -
  note c = assms [unfolded grows.simps]
  show "walletAddress m' = walletAddress m" by (rule c [THEN conjunct1])
  show "seenTransactions m \<subseteq> seenTransactions m'" by (rule c [THEN conjunct2, THEN conjunct1])
  show "tx_hash ` set n' \<subseteq> tx_hash ` set n \<union> (seenTransactions m' - seenTransactions m)"
    by (rule c [THEN conjunct2, THEN conjunct2, THEN conjunct1])
  show "\<forall>h \<in> seenTransactions m. firstSeenTimes m' h = firstSeenTimes m h"
    by (rule c [THEN conjunct2, THEN conjunct2, THEN conjunct2, THEN conjunct1])
  show "seenTransactions m = dom (firstSeenTimes m) \<longrightarrow>
           seenTransactions m' = dom (firstSeenTimes m')"
    by (rule c [THEN conjunct2, THEN conjunct2, THEN conjunct2, THEN conjunct2, THEN conjunct1])
  show "distinct (map tx_hash n) \<and> tx_hash ` set n \<subseteq> seenTransactions m \<longrightarrow>
           distinct (map tx_hash n') \<and> tx_hash ` set n' \<subseteq> seenTransactions m'"
    by (rule c [THEN conjunct2, THEN conjunct2, THEN conjunct2, THEN conjunct2, THEN conjunct2])
qed

lemma growsI:
  assumes "walletAddress m' = walletAddress m"
    and "seenTransactions m \<subseteq> seenTransactions m'"
    and "tx_hash ` set n' \<subseteq> tx_hash ` set n \<union> (seenTransactions m' - seenTransactions m)"
    and "\<forall>h \<in> seenTransactions m. firstSeenTimes m' h = firstSeenTimes m h"
    and "seenTransactions m = dom (firstSeenTimes m) \<longrightarrow>
           seenTransactions m' = dom (firstSeenTimes m')"
    and "distinct (map tx_hash n) \<and> tx_hash ` set n \<subseteq> seenTransactions m \<longrightarrow>
           distinct (map tx_hash n') \<and> tx_hash ` set n' \<subseteq> seenTransactions m'"
  shows "grows (m, k, n, a) (m', k', n', a')"
  unfolding grows.simps using assms by (intro conjI)

lemma subset_chain:
  "N3 \<subseteq> N2 \<union> (S3 - S2) \<Longrightarrow> N2 \<subseteq> N1 \<union> (S2 - S1) \<Longrightarrow> S1 \<subseteq> S2 \<Longrightarrow> S2 \<subseteq> S3 \<Longrightarrow>
   N3 \<subseteq> N1 \<union> (S3 - S1)"
  by blast

lemma imp_chain: "A \<longrightarrow> B \<Longrightarrow> B \<longrightarrow> C \<Longrightarrow> A \<longrightarrow> C"
  by blast

lemma grows_trans:
  assumes "grows st1 st2" "grows st2 st3"
  shows "grows st1 st3"
proof -
  obtain m1 k1 n1 a1 where 1: "st1 = (m1, k1, n1, a1)" by (cases st1)
  obtain m2 k2 n2 a2 where 2: "st2 = (m2, k2, n2, a2)" by (cases st2)
  obtain m3 k3 n3 a3 where 3: "st3 = (m3, k3, n3, a3)" by (cases st3)
  note x = growsD [OF assms(1) [unfolded 1 2]]
  note y = growsD [OF assms(2) [unfolded 2 3]]
  have w: "walletAddress m3 = walletAddress m1" using x(1) y(1) by simp
  have s: "seenTransactions m1 \<subseteq> seenTransactions m3" using x(2) y(2) by (rule subset_trans)
  have n: "tx_hash ` set n3 \<subseteq> tx_hash ` set n1 \<union> (seenTransactions m3 - seenTransactions m1)"
    using y(3) x(3) x(2) y(2) by (rule subset_chain)
  have t: "\<forall>h \<in> seenTransactions m1. firstSeenTimes m3 h = firstSeenTimes m1 h"
  proof
    fix h assume h: "h \<in> seenTransactions m1"
    with x(2) have "h \<in> seenTransactions m2" by blast
    with y(4) have "firstSeenTimes m3 h = firstSeenTimes m2 h" by blast
    also from x(4) h have "firstSeenTimes m2 h = firstSeenTimes m1 h" by blast
    finally show "firstSeenTimes m3 h = firstSeenTimes m1 h" .
  qed
  have e: "seenTransactions m1 = dom (firstSeenTimes m1) \<longrightarrow>
           seenTransactions m3 = dom (firstSeenTimes m3)"
    using x(5) y(5) by (rule imp_chain)
  have f: "distinct (map tx_hash n1) \<and> tx_hash ` set n1 \<subseteq> seenTransactions m1 \<longrightarrow>
              distinct (map tx_hash n3) \<and> tx_hash ` set n3 \<subseteq> seenTransactions m3"
    using x(6) y(6) by (rule imp_chain)
  show ?thesis
    unfolding 1 3 using w s n t e f by (rule growsI)
qed

lemma grows_step:
  assumes "tx_hash tx \<notin> seenTransactions m"
  shows "grows (m, k, n, a)
     (m\<lparr> seenTransactions := insert (tx_hash tx) (seenTransactions m),
         firstSeenTimes := (firstSeenTimes m)(tx_hash tx \<mapsto> t) \<rparr>, k', n @ [tx], a')"
  using assms by auto

lemma grows_same: "grows (m, k, n, a) (m, k', n, a')"
  by auto

lemma check_txs_grows: "grows st (check_txs clk txs st)"
proof (induction txs arbitrary: st)
  case Nil
  show ?case by (simp add: grows_refl)
next
  case (Cons tx rest)
  obtain m k n a where st: "st = (m, k, n, a)" by (cases st)
  show ?case
  proof (cases "tx_hash tx \<in> seenTransactions m")
    case True
    then have e: "check_txs clk (tx # rest) st = check_txs clk rest (m, k, n, a @ [tx])"
      by (simp add: st)
    have g: "grows st (m, k, n, a @ [tx])" unfolding st by (rule grows_same)
    show ?thesis unfolding e by (rule grows_trans [OF g Cons.IH])
  next
    case False
    let ?st' = "(m\<lparr> seenTransactions := insert (tx_hash tx) (seenTransactions m),
         firstSeenTimes := (firstSeenTimes m)(tx_hash tx \<mapsto> clk k) \<rparr>, Suc k, n @ [tx], a @ [tx])"
    from False have e: "check_txs clk (tx # rest) st = check_txs clk rest ?st'"
      by (simp add: st)
    have g: "grows st ?st'" unfolding st using False by (rule grows_step)
    show ?thesis unfolding e by (rule grows_trans [OF g Cons.IH])
  qed
qed

lemma check_pools_grows: "grows st (check_pools clk d ps st)"
proof (induction ps arbitrary: st)
  case Nil
  show ?case by (simp add: grows_refl)
next
  case (Cons p ps)
  obtain m k n a where st: "st = (m, k, n, a)" by (cases st)
  show ?case
  proof (cases "pool_at d p")
    case None
    then have e: "check_pools clk d (p # ps) st = check_pools clk d ps st"
      by (simp add: st)
    show ?thesis unfolding e by (rule Cons.IH)
  next
    case (Some poolData)
    note pd = Some
    show ?thesis
    proof (cases "map_of poolData (walletAddress m)")
      case None
      with pd have e: "check_pools clk d (p # ps) st = check_pools clk d ps st"
        by (simp add: st)
      show ?thesis unfolding e by (rule Cons.IH)
    next
      case (Some addressData)
      obtain txs k' where x: "extractTransactionsFromAddress clk addressData p k = (txs, k')"
        by (cases "extractTransactionsFromAddress clk addressData p k")
      let ?st1 = "check_txs clk txs (m, k', n, a)"
      have e: "check_pools clk d (p # ps) st = check_pools clk d ps ?st1"
        using pd Some x by (simp add: st)
      have g1: "grows st (m, k', n, a)" unfolding st by (rule grows_same)
      have g2: "grows (m, k', n, a) ?st1" by (rule check_txs_grows)
      show ?thesis unfolding e
        by (rule grows_trans [OF grows_trans [OF g1 g2] Cons.IH])
    qed
  qed
qed

lemma checkMempool_grows:
  assumes "checkMempool clk fetched (m, k) = (r, m', k')"
  shows "grows (m, k, [], []) (m', k', cycle_newTransactions r, cycle_allWalletTransactions r)"
proof (cases fetched)
  case None
  with assms show ?thesis by (auto simp: checkMempool_def)
next
  case (Some d)
  obtain m1 k1 n1 a1 where c: "check_pools clk d [Pending, Queued] (m, k, [], []) = (m1, k1, n1, a1)"
    by (cases "check_pools clk d [Pending, Queued] (m, k, [], [])")
  with assms Some have "m' = m1" "k' = k1" "cycle_newTransactions r = n1" "cycle_allWalletTransactions r = a1"
    by (auto simp: checkMempool_def)
  with check_pools_grows [of "(m, k, [], [])" clk d "[Pending, Queued]"] c
  show ?thesis by simp
qed

lemma checkMempool_props:
  assumes "checkMempool clk fetched (m, k) = (r, m', k')"
  shows "walletAddress m' = walletAddress m"
    and "seenTransactions m \<subseteq> seenTransactions m'"
    and "new_hashes r \<subseteq> seenTransactions m' - seenTransactions m"
    and "h \<in> seenTransactions m \<Longrightarrow> firstSeenTimes m' h = firstSeenTimes m h"
    and "seenTransactions m = dom (firstSeenTimes m) \<Longrightarrow> seenTransactions m' = dom (firstSeenTimes m')"
    and "distinct (map tx_hash (cycle_newTransactions r))"
  using checkMempool_grows [OF assms] by (auto simp: new_hashes_def)

lemma run_cycles_Cons:
  assumes "checkMempool clk fetched (m, k) = (r, m1, k1)"
      and "run_cycles clk rest (m1, Suc k1) = (rs, m2, k2)"
  shows "run_cycles clk (fetched # rest) (m, k) = (r # rs, m2, k2)"
  using assms by simp

lemma disjoint_diff: "A \<subseteq> S1 - S0 \<Longrightarrow> B \<subseteq> S2 - S1 \<Longrightarrow> A \<inter> B = {}"
  by blast

lemma subset_diff_left: "A \<subseteq> S1 - S0 \<Longrightarrow> S1 \<subseteq> S2 \<Longrightarrow> A \<subseteq> S2 - S0"
  by blast

lemma subset_diff_right: "A \<subseteq> S2 - S1 \<Longrightarrow> S0 \<subseteq> S1 \<Longrightarrow> A \<subseteq> S2 - S0"
  by blast

lemma run_cycles_props:
  "run_cycles clk fetches (m, k) = (rs, m', k') \<Longrightarrow>
     length rs = length fetches \<and>
     walletAddress m' = walletAddress m \<and>
     seenTransactions m \<subseteq> seenTransactions m' \<and>
     (\<forall>r \<in> set rs. new_hashes r \<subseteq> seenTransactions m' - seenTransactions m) \<and>
     (\<forall>h \<in> seenTransactions m. firstSeenTimes m' h = firstSeenTimes m h) \<and>
     (seenTransactions m = dom (firstSeenTimes m) \<longrightarrow>
        seenTransactions m' = dom (firstSeenTimes m')) \<and>
     (\<forall>i j. i < j \<longrightarrow> j < length rs \<longrightarrow> new_hashes (rs ! i) \<inter> new_hashes (rs ! j) = {})"
proof (induction fetches arbitrary: m k rs m' k')
  case Nil
  then show ?case by simp
next
  case (Cons fetched rest)
  obtain r m1 k1 where c: "checkMempool clk fetched (m, k) = (r, m1, k1)"
    by (cases "checkMempool clk fetched (m, k)")
  obtain rs1 m2 k2 where u: "run_cycles clk rest (m1, Suc k1) = (rs1, m2, k2)"
    by (cases "run_cycles clk rest (m1, Suc k1)")
  from Cons.prems run_cycles_Cons [OF c u]
  have eq: "rs = r # rs1" "m' = m2" by simp_all
  note p = checkMempool_props [OF c]
  from Cons.IH [OF u] have
        l: "length rs1 = length rest"
    and w: "walletAddress m2 = walletAddress m1"
    and s: "seenTransactions m1 \<subseteq> seenTransactions m2"
    and n: "\<forall>r \<in> set rs1. new_hashes r \<subseteq> seenTransactions m2 - seenTransactions m1"
    and t: "\<forall>h \<in> seenTransactions m1. firstSeenTimes m2 h = firstSeenTimes m1 h"
    and v: "seenTransactions m1 = dom (firstSeenTimes m1) \<longrightarrow>
              seenTransactions m2 = dom (firstSeenTimes m2)"
    and d: "\<forall>i j. i < j \<longrightarrow> j < length rs1 \<longrightarrow> new_hashes (rs1 ! i) \<inter> new_hashes (rs1 ! j) = {}"
    by blast+
  have 1: "length rs = length (fetched # rest)" using l by (simp add: eq)
  have 2: "walletAddress m' = walletAddress m" using w p(1) by (simp add: eq)
  have 3: "seenTransactions m \<subseteq> seenTransactions m'"
    unfolding eq using p(2) s by (rule subset_trans)
  have 4: "\<forall>r \<in> set rs. new_hashes r \<subseteq> seenTransactions m' - seenTransactions m"
  proof
    fix x assume "x \<in> set rs"
    then consider "x = r" | "x \<in> set rs1" by (auto simp: eq)
    then show "new_hashes x \<subseteq> seenTransactions m' - seenTransactions m"
    proof cases
      case 1
      show ?thesis unfolding 1 eq using p(3) s by (rule subset_diff_left)
    next
      case 2
      with n have "new_hashes x \<subseteq> seenTransactions m2 - seenTransactions m1" by blast
      then show ?thesis unfolding eq using p(2) by (rule subset_diff_right)
    qed
  qed
  have 5: "\<forall>h \<in> seenTransactions m. firstSeenTimes m' h = firstSeenTimes m h"
  proof
    fix h assume h: "h \<in> seenTransactions m"
    with p(2) have "h \<in> seenTransactions m1" by blast
    with t have "firstSeenTimes m2 h = firstSeenTimes m1 h" by blast
    also have "firstSeenTimes m1 h = firstSeenTimes m h" using h by (rule p(4))
    finally show "firstSeenTimes m' h = firstSeenTimes m h" by (simp add: eq)
  qed
  have 6: "seenTransactions m = dom (firstSeenTimes m) \<longrightarrow>
        seenTransactions m' = dom (firstSeenTimes m')"
  proof
    assume "seenTransactions m = dom (firstSeenTimes m)"
    then have "seenTransactions m1 = dom (firstSeenTimes m1)" by (rule p(5))
    with v show "seenTransactions m' = dom (firstSeenTimes m')" by (simp add: eq)
  qed
  have 7: "\<forall>i j. i < j \<longrightarrow> j < length rs \<longrightarrow> new_hashes (rs ! i) \<inter> new_hashes (rs ! j) = {}"
  proof (intro allI impI)
    fix i j assume ij: "i < j" "j < length rs"
    then obtain j' where j: "j = Suc j'" "j' < length rs1"
      by (cases j) (auto simp: eq)
    show "new_hashes (rs ! i) \<inter> new_hashes (rs ! j) = {}"
    proof (cases i)
      case 0
      from j(2) have "rs1 ! j' \<in> set rs1" by simp
      with n have "new_hashes (rs1 ! j') \<subseteq> seenTransactions m2 - seenTransactions m1" by blast
      with p(3) have "new_hashes r \<inter> new_hashes (rs1 ! j') = {}" by (rule disjoint_diff)
      then show ?thesis by (simp add: eq 0 j)
    next
      case (Suc i')
      with ij j have "i' < j'" by simp
      with d j(2) have "new_hashes (rs1 ! i') \<inter> new_hashes (rs1 ! j') = {}" by blast
      then show ?thesis by (simp add: eq Suc j)
    qed
  qed
  from 1 2 3 4 5 6 7 show ?case by (intro conjI)
qed

lemma run_cycles_distinct:
  "run_cycles clk fetches (m, k) = (rs, m', k') \<Longrightarrow>
     \<forall>r \<in> set rs. distinct (map tx_hash (cycle_newTransactions r))"
proof (induction fetches arbitrary: m k rs m' k')
  case Nil
  then show ?case by simp
next
  case (Cons fetched rest)
  obtain r m1 k1 where c: "checkMempool clk fetched (m, k) = (r, m1, k1)"
    by (cases "checkMempool clk fetched (m, k)")
  obtain rs1 m2 k2 where u: "run_cycles clk rest (m1, Suc k1) = (rs1, m2, k2)"
    by (cases "run_cycles clk rest (m1, Suc k1)")
  from Cons.prems run_cycles_Cons [OF c u] have eq: "rs = r # rs1" by simp
  have "distinct (map tx_hash (cycle_newTransactions r))"
    by (rule checkMempool_props(6) [OF c])
  with Cons.IH [OF u] show ?case by (simp add: eq)
qed

lemma run_cycles_append:
  "run_cycles clk xs (m, k) = (rs, m1, k1) \<Longrightarrow> run_cycles clk ys (m1, k1) = (rs', m2, k2) \<Longrightarrow>
   run_cycles clk (xs @ ys) (m, k) = (rs @ rs', m2, k2)"
proof (induction xs arbitrary: m k rs)
  case Nil
  then show ?case by simp
next
  case (Cons fetched rest)
  obtain r ma ka where c: "checkMempool clk fetched (m, k) = (r, ma, ka)"
    by (cases "checkMempool clk fetched (m, k)")
  obtain rsa where u: "run_cycles clk rest (ma, Suc ka) = (rsa, m1, k1)" and eq: "rs = r # rsa"
    using Cons.prems(1) c by (cases "run_cycles clk rest (ma, Suc ka)") auto
  from Cons.IH [OF u Cons.prems(2)]
  have "run_cycles clk (rest @ ys) (ma, Suc ka) = (rsa @ rs', m2, k2)" .
  with c show ?case by (simp add: eq)
qed

lemma run_monitor_inv:
  "seenTransactions (run_monitor clk fetches (new_MempoolMonitor w, k)) =
   dom (firstSeenTimes (run_monitor clk fetches (new_MempoolMonitor w, k)))"
proof -
  obtain rs m' k' where r: "run_cycles clk fetches (new_MempoolMonitor w, k) = (rs, m', k')"
    by (cases "run_cycles clk fetches (new_MempoolMonitor w, k)")
  from run_cycles_props [OF r]
  have "seenTransactions (new_MempoolMonitor w) = dom (firstSeenTimes (new_MempoolMonitor w)) \<longrightarrow>
        seenTransactions m' = dom (firstSeenTimes m')" by (elim conjE)
  moreover have "seenTransactions (new_MempoolMonitor w) = dom (firstSeenTimes (new_MempoolMonitor w))"
    by (simp add: new_MempoolMonitor_def)
  ultimately have "seenTransactions m' = dom (firstSeenTimes m')" by (rule mp)
  then show ?thesis by (simp add: run_monitor_def r)
qed

subsection \<open>A failed fetch\<close>

text \<open>
  C3. When the fetch yields no data, \<^verbatim>\<open>checkMempool\<close> returns two empty arrays and
  leaves the monitor, and with it the seen set and the first-seen map, as it was; no
  date is taken. Both ways a request can fail yield no data. In a run, the monitor after
  a failed cycle is the monitor before it, and that cycle's result is the empty pair.
\<close>

theorem checkMempool_failed_fetch:
  "checkMempool clk None (m, k) =
     (\<lparr> cycle_newTransactions = [], cycle_allWalletTransactions = [] \<rparr>, m, k) \<and>
   makeApiRequest RequestFailed = None \<and> makeApiRequest (Responded None) = None \<and>
   run_monitor clk (fetches @ [None]) (m, k) = run_monitor clk fetches (m, k) \<and>
   run_results clk (fetches @ [None]) (m, k) =
     run_results clk fetches (m, k) @
       [\<lparr> cycle_newTransactions = [], cycle_allWalletTransactions = [] \<rparr>]"
proof -
  obtain rs m1 k1 where r: "run_cycles clk fetches (m, k) = (rs, m1, k1)"
    by (cases "run_cycles clk fetches (m, k)")
  have c: "checkMempool clk None (m', k') =
     (\<lparr> cycle_newTransactions = [], cycle_allWalletTransactions = [] \<rparr>, m', k')" for m' k'
    by (simp add: checkMempool_def)
  have l: "run_cycles clk [None] (m1, k1) =
     ([\<lparr> cycle_newTransactions = [], cycle_allWalletTransactions = [] \<rparr>], m1, Suc k1)"
    by (simp add: c)
  note a = run_cycles_append [OF r l]
  show ?thesis
    by (simp add: c makeApiRequest_def run_monitor_def run_results_def a r)
qed

subsection \<open>The two containers have the same keys\<close>

text \<open>
  C4. The monitor the constructor leaves has an empty seen set and an empty first-seen
  map, and after any number of cycles of a run, whatever each fetch yielded, the seen
  set is the set of keys of the first-seen map.
\<close>

theorem seen_iff_firstSeen:
  "seenTransactions (new_MempoolMonitor w) = dom (firstSeenTimes (new_MempoolMonitor w)) \<and>
   seenTransactions (run_monitor clk fetches (new_MempoolMonitor w, k)) =
     dom (firstSeenTimes (run_monitor clk fetches (new_MempoolMonitor w, k)))"
  using run_monitor_inv [of clk fetches w k] by (simp add: new_MempoolMonitor_def)

subsection \<open>No hash is reported as new twice\<close>

text \<open>
  C2. In a run started from any monitor state, the hashes reported as new by two
  different cycles are disjoint, whatever the fetches yield in between, and within the
  report of one cycle no hash occurs twice.
\<close>

theorem new_reported_once:
  assumes "i < j" "j < length fetches"
  shows "new_hashes (run_results clk fetches (m, k) ! i) \<inter>
         new_hashes (run_results clk fetches (m, k) ! j) = {} \<and>
         distinct (map tx_hash (cycle_newTransactions (run_results clk fetches (m, k) ! i))) \<and>
         distinct (map tx_hash (cycle_newTransactions (run_results clk fetches (m, k) ! j)))"
proof -
  obtain rs m' k' where r: "run_cycles clk fetches (m, k) = (rs, m', k')"
    by (cases "run_cycles clk fetches (m, k)")
  note p = run_cycles_props [OF r]
  from p have l: "length rs = length fetches"
    by (elim conjE)
  from p have d: "\<forall>i j. i < j \<longrightarrow> j < length rs \<longrightarrow> new_hashes (rs ! i) \<inter> new_hashes (rs ! j) = {}"
    by (elim conjE)
  from d assms l have 1: "new_hashes (rs ! i) \<inter> new_hashes (rs ! j) = {}" by simp
  from assms l have "rs ! i \<in> set rs" "rs ! j \<in> set rs" by simp_all
  with run_cycles_distinct [OF r]
  have 2: "distinct (map tx_hash (cycle_newTransactions (rs ! i)))"
      and 3: "distinct (map tx_hash (cycle_newTransactions (rs ! j)))"
    by blast+
  from 1 2 3 show ?thesis by (simp add: run_results_def r)
qed

text \<open>
  An instance, on the run \<open>fetches0\<close>: the first cycle reports \<open>0x1\<close> and \<open>0x2\<close>;
  the hash \<open>0x2\<close> has moved to queued in the third cycle and \<open>0x1\<close> is back in the
  fifth after the pool was empty, and neither is reported again.
\<close>

theorem new_reported_once_witness:
  "(0::nat) < 4 \<and> 4 < length fetches0 \<and>
   map new_hashes (run_results clock0 fetches0 (new_MempoolMonitor wallet0, 0)) =
     [{''0x1'', ''0x2''}, {}, {''0x3''}, {}, {}] \<and>
   new_hashes (run_results clock0 fetches0 (new_MempoolMonitor wallet0, 0) ! 0) \<inter>
   new_hashes (run_results clock0 fetches0 (new_MempoolMonitor wallet0, 0) ! 4) = {}"
proof -
  have l: "(0::nat) < 4" "4 < length fetches0" by (simp_all add: fetches0_def)
  have v: "map new_hashes (run_results clock0 fetches0 (new_MempoolMonitor wallet0, 0)) =
     [{''0x1'', ''0x2''}, {}, {''0x3''}, {}, {}]"
    by (simp add: fetches0_def cycle1_def cycle3_def cycle4_def cycle5_def eval_monitor)
  note t = new_reported_once [OF l, of clock0 "new_MempoolMonitor wallet0" 0, THEN conjunct1]
  show ?thesis
    by (intro conjI) (rule l(1), rule l(2), rule v, rule t)
qed

subsection \<open>The first-seen date is written once\<close>

text \<open>
  C5. A date that the first-seen map holds for a hash after some cycles of a run is the
  date it holds for that hash after any further cycles.
\<close>

theorem firstSeen_write_once:
  assumes "firstSeenTimes (run_monitor clk fetches (new_MempoolMonitor w, k)) h = Some t"
  shows "firstSeenTimes (run_monitor clk (fetches @ later) (new_MempoolMonitor w, k)) h = Some t"
proof -
  obtain rs m1 k1 where r: "run_cycles clk fetches (new_MempoolMonitor w, k) = (rs, m1, k1)"
    by (cases "run_cycles clk fetches (new_MempoolMonitor w, k)")
  obtain rs' m2 k2 where r': "run_cycles clk later (m1, k1) = (rs', m2, k2)"
    by (cases "run_cycles clk later (m1, k1)")
  have m1: "run_monitor clk fetches (new_MempoolMonitor w, k) = m1"
    by (simp add: run_monitor_def r)
  have m2: "run_monitor clk (fetches @ later) (new_MempoolMonitor w, k) = m2"
    by (simp add: run_monitor_def run_cycles_append [OF r r'])
  from run_monitor_inv [of clk fetches w k] have "seenTransactions m1 = dom (firstSeenTimes m1)"
    unfolding m1 .
  with assms have h: "h \<in> seenTransactions m1" unfolding m1 by blast
  from run_cycles_props [OF r']
  have "\<forall>h \<in> seenTransactions m1. firstSeenTimes m2 h = firstSeenTimes m1 h"
    by (elim conjE)
  with h have "firstSeenTimes m2 h = firstSeenTimes m1 h" by blast
  with assms show ?thesis unfolding m1 m2 by simp
qed

text \<open>
  An instance: \<open>0x2\<close> gets its date in the first cycle of \<open>fetches0\<close> and is observed
  again, in the other sub-pool, in the third, when the clock has advanced.
\<close>

theorem firstSeen_write_once_witness:
  "firstSeenTimes (run_monitor clock0 [Some cycle1] (new_MempoolMonitor wallet0, 0)) ''0x2'' = Some 1003 \<and>
   firstSeenTimes (run_monitor clock0 ([Some cycle1] @ [None, Some cycle3, Some cycle4, Some cycle5])
      (new_MempoolMonitor wallet0, 0)) ''0x2'' = Some 1003"
proof -
  have a: "firstSeenTimes (run_monitor clock0 [Some cycle1] (new_MempoolMonitor wallet0, 0)) ''0x2'' = Some 1003"
    by (simp add: cycle1_def eval_monitor)
  from firstSeen_write_once [OF a, of "[None, Some cycle3, Some cycle4, Some cycle5]"] a
  show ?thesis by (intro conjI)
qed

end
